theory Spec2Isabelle
  imports Complex_Main
begin

section \<open>Retrieval and scoring pipeline of the NCERT revision tool\<close>

text \<open>
  The development embeds \<^verbatim>\<open>rag_retriever.py\<close> (chunker, cosine similarity, retriever) and
  the answer-submission handler of \<^verbatim>\<open>app.py\<close>.

  Conventions of the embedding:
  \<^item> a Python \<^verbatim>\<open>float\<close> is a finite double, seen as the real number it denotes; the
    arithmetic of the similarity score rounds every result to a double; infinities and
    NaN, which arise when a result overflows, are not represented;
  \<^item> an embedding (a one-dimensional numpy array) is a \<open>real list\<close>;
  \<^item> a Python \<^verbatim>\<open>str\<close> is a \<open>string\<close> whose characters are the code points below 256;
  \<^item> a Python \<^verbatim>\<open>int\<close> is an \<open>int\<close>;
  \<^item> an exception is a value \<open>Inl e\<close> of a sum type, a loop that may run forever returns
    \<open>None\<close> where it does not return;
  \<^item> the hosted embedding and generation services are parameters: functions of an abstract
    service state \<open>'s\<close> that return an error or a result together with the next state;
  \<^item> log lines and user-interface output are recorded as lists of events.
\<close>

subsection \<open>Exceptions\<close>

datatype error =
    ValueError
  | FileNotFoundError string
  | ServiceException string

subsection \<open>Double-precision arithmetic\<close>

text \<open>
  The floats of numpy and of Python are IEEE 754 binary64 numbers. A finite double is
  modelled as the real number it denotes, and the result of an arithmetic operation is
  the exact result rounded to the nearest double, ties going to the even significand.
\<close>

text \<open>The nearest integer, ties to even.\<close>

definition round_even :: "real \<Rightarrow> int" where
  "round_even x =
     (let n = \<lfloor>x\<rfloor>; r = x - of_int n in
      if r < 1 / 2 then n else if 1 / 2 < r then n + 1 else if even n then n else n + 1)"

text \<open>The exponent \<open>e\<close> with \<open>2^e \<le> |x| < 2^(e+1)\<close>, but not less than the exponent
  \<open>- 1022\<close> of the smallest normal number: below it the doubles are subnormal and
  equally spaced.\<close>

definition binade :: "real \<Rightarrow> int" where
  "binade x = max \<lfloor>log 2 \<bar>x\<bar>\<rfloor> (- 1022)"

text \<open>The distance between neighbouring doubles around \<open>x\<close>: a significand has 53 bits.\<close>

definition ulp :: "real \<Rightarrow> real" where
  "ulp x = 2 powi (binade x - 52)"

text \<open>Rounding to a double. A result that underflows becomes subnormal or zero. The
  exponent is not bounded from above: a result of \<open>2^1024\<close> or more stands for an
  overflow, after which the program computes with an infinity or a NaN and the model
  does not follow it.\<close>

definition round64 :: "real \<Rightarrow> real" where
  "round64 x = (if x = 0 then 0 else of_int (round_even (x / ulp x)) * ulp x)"

text \<open>A result that has not overflowed.\<close>

definition in_double_range :: "real \<Rightarrow> bool" where
  "in_double_range x = (\<bar>x\<bar> < 2 ^ 1024)"

subsection \<open>Similarity scorer: \<^verbatim>\<open>FileRAGRetriever._cosine_sim\<close>\<close>

text \<open>The sum of products of \<^verbatim>\<open>np.dot\<close>: the products are added from left to right,
  each product and each partial sum rounded. (numpy leaves the order of the additions
  to its BLAS library; for the vectors evaluated in this theory every order gives the
  same sums.)\<close>

fun dot_acc :: "real \<Rightarrow> real list \<Rightarrow> real list \<Rightarrow> real" where
  "dot_acc acc (x # xs) (y # ys) = dot_acc (round64 (acc + round64 (x * y))) xs ys"
| "dot_acc acc _ _ = acc"

text \<open>\<^verbatim>\<open>np.linalg.norm(a)\<close> of a one-dimensional array: the square root of the dot
  product of the array with itself.\<close>

definition linalg_norm :: "real list \<Rightarrow> real" where
  "linalg_norm a = round64 (sqrt (dot_acc 0 a a))"

text \<open>\<^verbatim>\<open>np.dot(a, b)\<close> of two one-dimensional arrays raises \<^verbatim>\<open>ValueError\<close> when their
  lengths differ.\<close>

definition dot :: "real list \<Rightarrow> real list \<Rightarrow> error + real" where
  "dot a b = (if length a = length b then Inr (dot_acc 0 a b) else Inl ValueError)"

definition cosine_sim :: "real list \<Rightarrow> real list \<Rightarrow> error + real" where
  "cosine_sim a b =
     (let denom = round64 (linalg_norm a * linalg_norm b) in
      if denom = 0 then Inr (- 1)
      else (case dot a b of Inl e \<Rightarrow> Inl e | Inr d \<Rightarrow> Inr (round64 (d / denom))))"

subsection \<open>Grading branch of the answer handlers\<close>

text \<open>
  The four feedback outcomes. In \<^verbatim>\<open>app.py\<close> and in the main program of
  \<^verbatim>\<open>rag_retriever.py\<close> they are the feedback strings "Correct!", "Partially correct.",
  "Incorrect or unrelated." and the fallback used when no similarity could be computed
  ("Could not compute feedback", "Unable to compute similarity for feedback.").
\<close>

datatype feedback_band = Correct | Partial | Incorrect | Unscored

text \<open>The \<^verbatim>\<open>if sim > 0.85 / elif sim > 0.6 / else\<close> chain, and the fallback for an absent
  similarity.\<close>

fun grade :: "real option \<Rightarrow> feedback_band" where
  "grade None = Unscored"
| "grade (Some sim) =
     (if sim > 0.85 then Correct else if sim > 0.6 then Partial else Incorrect)"

text \<open>The similarity is computed only when both embeddings are present.\<close>

fun answer_similarity :: "real list option \<Rightarrow> real list option \<Rightarrow> error + real option" where
  "answer_similarity (Some user_emb) (Some model_emb) =
     (case cosine_sim user_emb model_emb of Inl e \<Rightarrow> Inl e | Inr sim \<Rightarrow> Inr (Some sim))"
| "answer_similarity _ _ = Inr None"

subsection \<open>Chunker: \<^verbatim>\<open>chunk_text\<close>\<close>

text \<open>The characters for which \<^verbatim>\<open>str.isspace\<close> holds, among the code points below 256.\<close>

definition is_space :: "char \<Rightarrow> bool" where
  "is_space c =
     (let n = (of_char c :: nat) in
      (9 \<le> n \<and> n \<le> 13) \<or> (28 \<le> n \<and> n \<le> 32) \<or> n = 133 \<or> n = 160)"

text \<open>\<^verbatim>\<open>text.split()\<close>: the maximal runs of non-whitespace characters, in order.
  \<open>cur\<close> is the word being read.\<close>

fun split_acc :: "string \<Rightarrow> string \<Rightarrow> string list" where
  "split_acc cur [] = (if cur = [] then [] else [cur])"
| "split_acc cur (c # cs) =
     (if is_space c then (if cur = [] then split_acc [] cs else cur # split_acc [] cs)
      else split_acc (cur @ [c]) cs)"

definition str_split :: "string \<Rightarrow> string list" where
  "str_split s = split_acc [] s"

text \<open>The words \<^verbatim>\<open>split\<close> produces are not empty and hold no whitespace.\<close>

definition plain_word :: "string \<Rightarrow> bool" where
  "plain_word w = (w \<noteq> [] \<and> (\<forall>c\<in>set w. \<not> is_space c))"

text \<open>\<^verbatim>\<open>sep.join(ws)\<close>.\<close>

fun str_join :: "string \<Rightarrow> string list \<Rightarrow> string" where
  "str_join sep [] = []"
| "str_join sep [w] = w"
| "str_join sep (w # ws) = w @ sep @ str_join sep ws"

text \<open>\<^verbatim>\<open>xs[lo:hi]\<close>: a negative bound counts from the end, bounds are clamped to the list.\<close>

definition slice_bound :: "int \<Rightarrow> int \<Rightarrow> int" where
  "slice_bound n k = (if k < 0 then max 0 (k + n) else min k n)"

definition py_slice :: "'a list \<Rightarrow> int \<Rightarrow> int \<Rightarrow> 'a list" where
  "py_slice xs lo hi =
     (let n = int (length xs); l = slice_bound n lo; h = slice_bound n hi
      in take (nat (h - l)) (drop (nat l) xs))"

text \<open>The \<^verbatim>\<open>while i < len(words)\<close> loop. It has no guard on the step
  \<open>chunk_size - overlap\<close>, so it is a partial function: \<open>None\<close> is "does not return".\<close>

partial_function (option) chunk_loop ::
  "string list \<Rightarrow> int \<Rightarrow> int \<Rightarrow> int \<Rightarrow> string list \<Rightarrow> string list option" where
  "chunk_loop words chunk_size overlap i chunks =
     (if i < int (length words) then
        (let chunk = str_join '' '' (py_slice words i (i + chunk_size)) in
         chunk_loop words chunk_size overlap (i + (chunk_size - overlap))
           (if chunk \<noteq> [] then chunks @ [chunk] else chunks))
      else Some chunks)"

definition chunk_text :: "string \<Rightarrow> int \<Rightarrow> int \<Rightarrow> string list option" where
  "chunk_text txt chunk_size overlap = chunk_loop (str_split txt) chunk_size overlap 0 []"

subsection \<open>Retriever: \<^verbatim>\<open>FileRAGRetriever\<close>\<close>

record retriever =
  filepath :: string
  embed_model :: string
  chunks :: "string list"
  embeddings :: "real list option list"

text \<open>One entry of the list \<^verbatim>\<open>retrieve\<close> returns: the dictionary with the keys
  \<^verbatim>\<open>chunk_id\<close>, \<^verbatim>\<open>filename\<close>, \<^verbatim>\<open>text\<close> and \<^verbatim>\<open>score\<close>.\<close>

record scored_chunk =
  chunk_id :: nat
  filename :: string
  text_value :: string
  score :: real

text \<open>The lines written to the logger \<^verbatim>\<open>RAGRetrieverLogger\<close>.\<close>

datatype log_event =
    LogInitializing string
  | LogFileNotFound string
  | LogChunking nat
  | LogEmbeddingFailed error
  | LogRetrieving int string
  | LogNoQueryEmbedding
  | LogRetrieved nat

text \<open>What the retriever acts on outside itself: the embedding and generation services
  (an abstract state) and the log.\<close>

record 's world =
  service :: 's
  logged :: "log_event list"

text \<open>\<^verbatim>\<open>genai.embed_content(model=..., content=...)\<close> followed by the conversion of
  \<^verbatim>\<open>resp["embedding"]\<close> to an array: any exception on the way is the \<open>Inl\<close> result.\<close>

type_synonym 's embed_service = "string \<Rightarrow> string \<Rightarrow> 's \<Rightarrow> (error + real list) \<times> 's"

definition log_line :: "log_event \<Rightarrow> 's world \<Rightarrow> 's world" where
  "log_line ev w = w\<lparr>logged := logged w @ [ev]\<rparr>"

text \<open>\<^verbatim>\<open>_embed\<close>: an exception is logged and becomes the absent embedding.\<close>

definition embed ::
  "'s embed_service \<Rightarrow> retriever \<Rightarrow> string \<Rightarrow> 's world \<Rightarrow> real list option \<times> 's world" where
  "embed ec r content w =
     (case ec (embed_model r) content (service w) of
        (Inr emb, s') \<Rightarrow> (Some emb, w\<lparr>service := s'\<rparr>)
      | (Inl e, s') \<Rightarrow> (None, log_line (LogEmbeddingFailed e) (w\<lparr>service := s'\<rparr>)))"

text \<open>The loop \<^verbatim>\<open>for chunk in self.chunks: self.embeddings.append(self._embed(chunk))\<close>.\<close>

fun embed_chunks ::
  "'s embed_service \<Rightarrow> retriever \<Rightarrow> string list \<Rightarrow> 's world
     \<Rightarrow> real list option list \<times> 's world" where
  "embed_chunks ec r [] w = ([], w)"
| "embed_chunks ec r (c # cs) w =
     (let (emb, w1) = embed ec r c w;
          (embs, w2) = embed_chunks ec r cs w1
      in (emb # embs, w2))"

text \<open>\<^verbatim>\<open>_load_and_embed_chunks\<close>. The file system is a map from paths to file contents.\<close>

definition load_and_embed_chunks ::
  "'s embed_service \<Rightarrow> (string \<rightharpoonup> string) \<Rightarrow> retriever \<Rightarrow> 's world
     \<Rightarrow> ((error + retriever) \<times> 's world) option" where
  "load_and_embed_chunks ec fs r w =
     (case fs (filepath r) of
        None \<Rightarrow> Some (Inl (FileNotFoundError (filepath r)),
                      log_line (LogFileNotFound (filepath r)) w)
      | Some txt \<Rightarrow>
          (case chunk_text txt 300 50 of
             None \<Rightarrow> None
           | Some cs \<Rightarrow>
               (let r1 = r\<lparr>chunks := cs, embeddings := []\<rparr>;
                    w1 = log_line (LogChunking (length cs)) w;
                    (embs, w2) = embed_chunks ec r1 cs w1
                in Some (Inr (r1\<lparr>embeddings := embs\<rparr>), w2))))"

text \<open>\<^verbatim>\<open>FileRAGRetriever.__init__\<close>.\<close>

definition new_retriever ::
  "'s embed_service \<Rightarrow> (string \<rightharpoonup> string) \<Rightarrow> string \<Rightarrow> 's world
     \<Rightarrow> ((error + retriever) \<times> 's world) option" where
  "new_retriever ec fs path w =
     load_and_embed_chunks ec fs
       \<lparr>filepath = path, embed_model = ''models/text-embedding-004'',
        chunks = [], embeddings = []\<rparr>
       (log_line (LogInitializing path) w)"

text \<open>\<^verbatim>\<open>os.path.basename\<close> (POSIX): what follows the last slash.\<close>

definition basename :: "string \<Rightarrow> string" where
  "basename p = rev (takeWhile (\<lambda>c. c \<noteq> CHR ''/'') (rev p))"

text \<open>The scoring loop of \<^verbatim>\<open>retrieve\<close> over \<^verbatim>\<open>enumerate(zip(self.chunks, self.embeddings))\<close>,
  \<open>idx\<close> being the index of the next pair. A chunk without embedding is skipped; an
  exception of the similarity computation leaves the loop.\<close>

fun score_chunks ::
  "string \<Rightarrow> real list \<Rightarrow> nat \<Rightarrow> (string \<times> real list option) list
     \<Rightarrow> error + scored_chunk list" where
  "score_chunks fname q_emb idx [] = Inr []"
| "score_chunks fname q_emb idx ((chunk, None) # rest) =
     score_chunks fname q_emb (Suc idx) rest"
| "score_chunks fname q_emb idx ((chunk, Some emb) # rest) =
     (case cosine_sim q_emb emb of
        Inl e \<Rightarrow> Inl e
      | Inr s \<Rightarrow>
          (case score_chunks fname q_emb (Suc idx) rest of
             Inl e \<Rightarrow> Inl e
           | Inr scored \<Rightarrow>
               Inr (\<lparr>chunk_id = idx, filename = fname, text_value = chunk, score = s\<rparr>
                      # scored)))"

text \<open>\<^verbatim>\<open>list.sort(key=..., reverse=True)\<close>: the list is reversed, sorted by a stable
  ascending sort and reversed again, which keeps entries of equal key in their
  original order.\<close>

definition sort_reverse :: "('a \<Rightarrow> real) \<Rightarrow> 'a list \<Rightarrow> 'a list" where
  "sort_reverse key xs = rev (sort_key key (rev xs))"

text \<open>\<^verbatim>\<open>retrieve\<close>. The method can assign to the fields of \<^verbatim>\<open>self\<close>, so the model returns
  the retriever next to the result and the world.\<close>

definition retrieve ::
  "'s embed_service \<Rightarrow> retriever \<Rightarrow> string \<Rightarrow> int \<Rightarrow> 's world
     \<Rightarrow> (error + scored_chunk list) \<times> retriever \<times> 's world" where
  "retrieve ec r query top_k w =
     (let (q_emb, w1) = embed ec r query (log_line (LogRetrieving top_k query) w) in
      case q_emb of
        None \<Rightarrow> (Inr [], r, log_line LogNoQueryEmbedding w1)
      | Some q \<Rightarrow>
          (case score_chunks (basename (filepath r)) q 0 (zip (chunks r) (embeddings r)) of
             Inl e \<Rightarrow> (Inl e, r, w1)
           | Inr scored \<Rightarrow>
               (let result = py_slice (sort_reverse score scored) 0 top_k
                in (Inr result, r, log_line (LogRetrieved (length result)) w1))))"

subsection \<open>Answer submission: the \<^verbatim>\<open>Submit Answer\<close> handler of \<^verbatim>\<open>app.py\<close>\<close>

text \<open>One entry of \<^verbatim>\<open>st.session_state.conversation\<close>. An absent similarity is the
  entry the source renders as "N/A".\<close>

record turn =
  question :: string
  user_answer :: string
  model_answer :: string
  feedback :: feedback_band
  similarity :: "real option"

text \<open>What the handler shows on the page, in order.\<close>

datatype ui_event =
    UiNoChunksWarning
  | UiModelAnswer string
  | UiFeedback feedback_band real
  | UiNoFeedbackInfo
  | UiErrorNotice error

text \<open>The lines written to the logger \<^verbatim>\<open>ResponseLogger\<close>.\<close>

datatype response_event =
    RespNoChunks string string
  | RespAnswered string string string "real option"
  | RespError string error

record session =
  conversation :: "turn list"
  shown :: "ui_event list"
  response_log :: "response_event list"

text \<open>\<^verbatim>\<open>GenerativeModel(model_id).generate_content(prompt)\<close> and the reading of the
  response text: any exception on the way is the \<open>Inl\<close> result.\<close>

type_synonym 's generation_service = "string \<Rightarrow> string \<Rightarrow> 's \<Rightarrow> (error + string) \<times> 's"

text \<open>\<^verbatim>\<open>user_answer.strip()\<close> is true when the answer has a character that is not
  whitespace.\<close>

definition nonblank :: "string \<Rightarrow> bool" where
  "nonblank s = (\<exists>c \<in> set s. \<not> is_space c)"

text \<open>
  The body of \<^verbatim>\<open>if st.button("Submit Answer") and user_answer.strip():\<close>.
  \<open>build_prompt\<close> stands for \<^verbatim>\<open>build_teaching_prompt\<close>, whose template text plays no part
  in the control flow. The first component of the result is an exception that leaves
  the handler, if any: \<^verbatim>\<open>retrieve\<close> is called outside the \<^verbatim>\<open>try\<close> block.
\<close>

definition submit_answer ::
  "'s embed_service \<Rightarrow> 's generation_service \<Rightarrow> (string \<Rightarrow> scored_chunk list \<Rightarrow> string)
     \<Rightarrow> retriever \<Rightarrow> string \<Rightarrow> string \<Rightarrow> bool \<Rightarrow> session \<Rightarrow> 's world
     \<Rightarrow> error option \<times> session \<times> retriever \<times> 's world" where
  "submit_answer ec gen build_prompt r q answer clicked st w =
     (if clicked \<and> nonblank answer then
        (case retrieve ec r q 3 w of
           (Inl e, r1, w1) \<Rightarrow> (Some e, st, r1, w1)
         | (Inr results, r1, w1) \<Rightarrow>
             if results = [] then
               (None,
                st\<lparr>shown := shown st @ [UiNoChunksWarning],
                   response_log := response_log st @ [RespNoChunks q answer]\<rparr>,
                r1, w1)
             else
               (case gen ''gemini-2.0-flash-lite'' (build_prompt q results) (service w1) of
                  (Inl e, s2) \<Rightarrow>
                    (None,
                     st\<lparr>shown := shown st @ [UiErrorNotice e],
                        response_log := response_log st @ [RespError q e]\<rparr>,
                     r1, w1\<lparr>service := s2\<rparr>)
                | (Inr answer_text, s2) \<Rightarrow>
                    (let st1 = st\<lparr>shown := shown st @ [UiModelAnswer answer_text]\<rparr>;
                         (user_emb, w3) = embed ec r1 answer (w1\<lparr>service := s2\<rparr>);
                         (model_emb, w4) = embed ec r1 answer_text w3
                     in case answer_similarity user_emb model_emb of
                          Inl e \<Rightarrow>
                            (None,
                             st1\<lparr>shown := shown st1 @ [UiErrorNotice e],
                                 response_log := response_log st1 @ [RespError q e]\<rparr>,
                             r1, w4)
                        | Inr sim \<Rightarrow>
                            (None,
                             st1\<lparr>conversation := conversation st1 @
                                    [\<lparr>question = q, user_answer = answer,
                                      model_answer = answer_text, feedback = grade sim,
                                      similarity = sim\<rparr>],
                                 shown := shown st1 @
                                    [case sim of None \<Rightarrow> UiNoFeedbackInfo
                                     | Some v \<Rightarrow> UiFeedback (grade sim) v],
                                 response_log := response_log st1 @
                                    [RespAnswered q answer answer_text sim]\<rparr>,
                             r1, w4))))
      else (None, st, r, w))"

section \<open>Grading policy\<close>

text \<open>
  Claim C2. The grading rule maps a similarity to exactly one of four bands: an absent
  similarity gives \<open>Unscored\<close>; a similarity strictly above 0.85 gives \<open>Correct\<close>; one
  strictly above 0.6 and at most 0.85 gives \<open>Partial\<close>; one at most 0.6 gives
  \<open>Incorrect\<close>. In particular the grade of 0.85 is \<open>Partial\<close> and the grade of 0.6 is
  \<open>Incorrect\<close>.
\<close>

theorem grade_bands:
  "grade None = Unscored
   \<and> (0.85 < s \<longrightarrow> grade (Some s) = Correct)
   \<and> (0.6 < s \<and> s \<le> 0.85 \<longrightarrow> grade (Some s) = Partial)
   \<and> (s \<le> 0.6 \<longrightarrow> grade (Some s) = Incorrect)
   \<and> grade (Some 0.85) = Partial
   \<and> grade (Some 0.6) = Incorrect"
  by simp

theorem grade_bands_witness:
  "grade (Some 0.9) = Correct \<and> grade (Some 0.7) = Partial
   \<and> grade (Some 0.3) = Incorrect \<and> grade None = Unscored"
  using grade_bands [of "0.9"] grade_bands [of "0.7"] grade_bands [of "0.3"]
  by simp

section \<open>Double-precision arithmetic\<close>

lemma ulp_pos: "0 < ulp x"
  by (simp add: ulp_def)

lemma round_even_of_int: "round_even (of_int k) = k"
  by (simp add: round_even_def)

lemma round_even_ge: "of_int m \<le> x \<Longrightarrow> m \<le> round_even x"
proof -
  assume "of_int m \<le> x"
  then have "m \<le> \<lfloor>x\<rfloor>" by (simp add: le_floor_iff)
  then show ?thesis by (auto simp: round_even_def Let_def)
qed

lemma round_even_between:
  assumes "of_int n + 1 / 2 < x" "x < of_int n + 1"
  shows "round_even x = n + 1"
proof -
  have "\<lfloor>x\<rfloor> = n" using assms by linarith
  then show ?thesis using assms by (simp add: round_even_def)
qed

lemma round_even_below:
  assumes "of_int n \<le> x" "x < of_int n + 1 / 2"
  shows "round_even x = n"
proof -
  have "\<lfloor>x\<rfloor> = n" using assms by linarith
  then show ?thesis using assms by (simp add: round_even_def)
qed

lemma round64_zero [simp]: "round64 0 = 0"
  by (simp add: round64_def)

lemma binade_eq:
  assumes "2 powi e \<le> \<bar>x\<bar>" "\<bar>x\<bar> < 2 powi (e + 1)" "- 1022 \<le> e"
  shows "binade x = e"
proof -
  have "0 < (2::real) powi e" by simp
  with assms(1) have pos: "0 < \<bar>x\<bar>" by linarith
  have "(2::real) powr (real_of_int e + 1) = 2 powi (e + 1)"
    using powr_real_of_int' [of 2 "e + 1"] by simp
  moreover have "(2::real) powr real_of_int e = 2 powi e"
    using powr_real_of_int' [of 2 e] by simp
  ultimately have "\<lfloor>log 2 \<bar>x\<bar>\<rfloor> = e"
    using assms pos by (simp add: floor_log_eq_powr_iff)
  with assms(3) show ?thesis by (simp add: binade_def)
qed

lemma round64_eval:
  assumes "2 powi e \<le> \<bar>x\<bar>" "\<bar>x\<bar> < 2 powi (e + 1)" "- 1022 \<le> e"
  shows "round64 x = of_int (round_even (x / 2 powi (e - 52))) * 2 powi (e - 52)"
proof -
  have "0 < (2::real) powi e" by simp
  with assms(1) have "0 < \<bar>x\<bar>" by linarith
  then have "x \<noteq> 0" by simp
  then show ?thesis by (simp add: round64_def ulp_def binade_eq [OF assms])
qed

lemma binade_bounds:
  assumes "x \<noteq> 0"
  shows "- 1022 \<le> binade x"
    and "\<bar>x\<bar> < 2 powi (binade x + 1)"
    and "- 1022 < binade x \<Longrightarrow> 2 powi (binade x) \<le> \<bar>x\<bar>"
proof -
  let ?f = "\<lfloor>log 2 \<bar>x\<bar>\<rfloor>"
  have pos: "0 < \<bar>x\<bar>" using assms by simp
  have fl: "2 powr (of_int ?f) \<le> \<bar>x\<bar> \<and> \<bar>x\<bar> < 2 powr (of_int ?f + 1)"
    using floor_log_eq_powr_iff [of "\<bar>x\<bar>" 2 ?f] pos by simp
  have p1: "(2::real) powr (real_of_int ?f + 1) = 2 powi (?f + 1)"
    using powr_real_of_int' [of 2 "?f + 1"] by simp
  have p0: "(2::real) powr real_of_int ?f = 2 powi ?f"
    using powr_real_of_int' [of 2 ?f] by simp
  show "- 1022 \<le> binade x" by (simp add: binade_def)
  have "?f \<le> binade x" by (simp add: binade_def)
  then have "(2::real) powi (?f + 1) \<le> 2 powi (binade x + 1)"
    by (intro power_int_increasing) simp_all
  with fl p1 show "\<bar>x\<bar> < 2 powi (binade x + 1)" by simp
  show "2 powi (binade x) \<le> \<bar>x\<bar>" if "- 1022 < binade x"
  proof -
    from that have "binade x = ?f" by (simp add: binade_def max_def split: if_splits)
    with fl p0 show ?thesis by simp
  qed
qed


lemma round64_exact:
  assumes "x / ulp x = of_int k"
  shows "round64 x = x"
proof (cases "x = 0")
  case True
  then show ?thesis by (simp add: round64_zero)
next
  case False
  have "round64 x = of_int k * ulp x"
    using False assms by (simp add: round64_def round_even_of_int)
  also have "\<dots> = x"
    using assms ulp_pos [of x] by (simp add: field_simps)
  finally show ?thesis .
qed

lemma round64_of_int:
  assumes "\<bar>n\<bar> < 2 ^ 53"
  shows "round64 (of_int n) = of_int n"
proof (cases "n = 0")
  case True
  then show ?thesis by (simp add: round64_zero)
next
  case False
  let ?x = "real_of_int n"
  let ?e = "binade ?x"
  have nz: "?x \<noteq> 0" using False by simp
  have "1 \<le> \<bar>?x\<bar>" using False by (simp flip: of_int_abs)
  have upper: "?e \<le> 52"
  proof (rule ccontr)
    assume "\<not> ?e \<le> 52"
    then have big: "53 \<le> ?e" by simp
    then have "(2::real) powi 53 \<le> 2 powi ?e"
      by (intro power_int_increasing) simp_all
    moreover have "2 powi ?e \<le> \<bar>?x\<bar>"
      using binade_bounds(3) [OF nz] big by simp
    moreover have "\<bar>?x\<bar> < 2 ^ 53"
      using assms by (metis of_int_abs of_int_less_iff of_int_numeral of_int_power)
    ultimately show False by simp
  qed
  have "ulp ?x = 2 powi (?e - 52)" by (simp add: ulp_def)
  also have "\<dots> = 2 powi (- int (nat (52 - ?e)))"
    using upper by simp
  also have "\<dots> = inverse (2 ^ nat (52 - ?e))"
    by (simp only: power_int_minus power_int_of_nat)
  finally have u: "ulp ?x = inverse (2 ^ nat (52 - ?e))" .
  have "?x / ulp ?x = of_int (n * 2 ^ nat (52 - ?e))"
    unfolding u by (simp add: divide_inverse)
  then show ?thesis by (rule round64_exact)
qed

lemma round64_numeral [simp]:
  "numeral k < (2 ^ 53 :: int) \<Longrightarrow> round64 (numeral k) = numeral k"
  using round64_of_int [of "numeral k"] by simp

lemma round64_neg_numeral [simp]:
  "numeral k < (2 ^ 53 :: int) \<Longrightarrow> round64 (- numeral k) = - numeral k"
  using round64_of_int [of "- numeral k"] by simp

lemma round64_one [simp]: "round64 1 = 1"
  using round64_of_int [of 1] by simp

lemma round64_neg_one [simp]: "round64 (- 1) = - 1"
  using round64_of_int [of "- 1"] by simp

lemma round64_nonneg: "0 \<le> x \<Longrightarrow> 0 \<le> round64 x"
proof -
  assume "0 \<le> x"
  then have "real_of_int 0 \<le> x / ulp x" using ulp_pos [of x] by simp
  then have "0 \<le> round_even (x / ulp x)" by (rule round_even_ge)
  then show ?thesis using ulp_pos [of x] by (simp add: round64_def)
qed

text \<open>A double that is not zero is at least the smallest subnormal number.\<close>

lemma round64_least:
  assumes "round64 x \<noteq> 0"
  shows "2 powi (- 1074) \<le> \<bar>round64 x\<bar>"
proof -
  from assms have nz: "x \<noteq> 0" by (auto simp: round64_zero)
  let ?m = "round_even (x / ulp x)"
  have r: "round64 x = of_int ?m * ulp x" using nz by (simp add: round64_def)
  with assms have "?m \<noteq> 0" by auto
  then have "1 \<le> \<bar>real_of_int ?m\<bar>" by (simp flip: of_int_abs)
  moreover have "(2::real) powi (- 1074) \<le> ulp x"
    unfolding ulp_def using binade_bounds(1) [OF nz]
    by (intro power_int_increasing) simp_all
  moreover have "0 < (2::real) powi (- 1074)" by simp
  ultimately have "1 * 2 powi (- 1074) \<le> \<bar>real_of_int ?m\<bar> * ulp x"
    by (intro mult_mono) simp_all
  then show ?thesis using ulp_pos [of x] by (simp add: r abs_mult)
qed

text \<open>Rounding does not go below a power of two that the number reaches.\<close>

lemma round64_ge_power:
  assumes x: "2 powi k \<le> x" and k: "- 1074 \<le> k"
  shows "2 powi k \<le> round64 x"
proof -
  have "0 < (2::real) powi k" by simp
  with x have pos: "0 < x" and nz: "x \<noteq> 0" by linarith+
  let ?e = "binade x"
  have r: "round64 x = of_int (round_even (x / ulp x)) * ulp x"
    using nz by (simp add: round64_def)
  show ?thesis
  proof (cases "- 1022 < ?e")
    case True
    then have lo: "2 powi ?e \<le> x" using binade_bounds(3) [OF nz] pos by simp
    have "x / ulp x \<ge> 2 powi ?e / 2 powi (?e - 52)"
      unfolding ulp_def using lo by (intro divide_right_mono) simp_all
    also have "(2::real) powi ?e / 2 powi (?e - 52) = 2 powi 52"
      by (simp add: power_int_diff)
    finally have "real_of_int (2 ^ 52) \<le> x / ulp x" by simp
    then have "2 ^ 52 \<le> round_even (x / ulp x)" by (rule round_even_ge)
    then have "real_of_int (2 ^ 52) \<le> real_of_int (round_even (x / ulp x))"
      by (simp only: of_int_le_iff)
    then have "real_of_int (2 ^ 52) * ulp x \<le> round64 x"
      unfolding r using ulp_pos [of x] by (intro mult_right_mono) simp_all
    moreover have "real_of_int (2 ^ 52) * ulp x = 2 powi ?e"
      by (simp add: ulp_def power_int_diff)
    moreover have "(2::real) powi k \<le> 2 powi ?e"
    proof (rule ccontr)
      assume "\<not> (2::real) powi k \<le> 2 powi ?e"
      then have "?e < k" by (meson not_le power_int_increasing one_le_numeral)
      then have "(2::real) powi (?e + 1) \<le> 2 powi k"
        by (intro power_int_increasing) simp_all
      with binade_bounds(2) [OF nz] x pos show False by simp
    qed
    ultimately show ?thesis by simp
  next
    case False
    then have e: "?e = - 1022" using binade_bounds(1) [OF nz] by simp
    define c where "c = (2::real) powi (- 1074)"
    have cpos: "0 < c" by (simp add: c_def)
    have u: "ulp x = c" using e by (simp add: ulp_def c_def)
    define j where "j = nat (k + 1074)"
    have kj: "k = int j + (- 1074)" using k by (simp add: j_def)
    have split: "(2::real) powi k = 2 ^ j * c"
      unfolding kj c_def by (subst power_int_add) (simp_all only: power_int_of_nat, simp)
    have "real_of_int (2 ^ j) = 2 powi k / c"
      unfolding split using cpos by simp
    also have "\<dots> \<le> x / ulp x"
      unfolding u using x cpos by (intro divide_right_mono) simp_all
    finally have "2 ^ j \<le> round_even (x / ulp x)" by (rule round_even_ge)
    then have "real_of_int (2 ^ j) \<le> real_of_int (round_even (x / ulp x))"
      by (simp only: of_int_le_iff)
    then have "real_of_int (2 ^ j) * ulp x \<le> round64 x"
      unfolding r using ulp_pos [of x] by (intro mult_right_mono) simp_all
    moreover have "real_of_int (2 ^ j) * ulp x = 2 powi k"
      unfolding u split by simp
    ultimately show ?thesis by simp
  qed
qed

section \<open>Similarity scorer\<close>




lemma cosine_sim_returns:
  "length a = length b \<Longrightarrow> \<exists>s. cosine_sim a b = Inr s"
  by (simp add: cosine_sim_def dot_def Let_def)


lemma cosine_sim_degenerate:
  "linalg_norm a = 0 \<or> linalg_norm b = 0 \<Longrightarrow> cosine_sim a b = Inr (- 1)"
  by (auto simp: cosine_sim_def round64_zero)

lemma cosine_sim_quotient:
  assumes "length a = length b" "round64 (linalg_norm a * linalg_norm b) \<noteq> 0"
  shows "cosine_sim a b =
           Inr (round64 (dot_acc 0 a b / round64 (linalg_norm a * linalg_norm b)))"
  using assms by (simp add: cosine_sim_def dot_def)

text \<open>The sum of rounded squares is zero or at least the smallest subnormal number.\<close>

lemma dot_acc_squares:
  assumes "0 \<le> acc" "acc = 0 \<or> 2 powi (- 1074) \<le> acc"
  shows "dot_acc acc a a = 0 \<or> 2 powi (- 1074) \<le> dot_acc acc a a"
  using assms
proof (induction a arbitrary: acc)
  case Nil
  then show ?case by simp
next
  case (Cons x xs)
  let ?acc = "round64 (acc + round64 (x * x))"
  have "0 \<le> round64 (x * x)" by (rule round64_nonneg) simp
  with Cons.prems(1) have nonneg: "0 \<le> ?acc" by (intro round64_nonneg) simp
  have "?acc = 0 \<or> 2 powi (- 1074) \<le> ?acc"
    using round64_least [of "acc + round64 (x * x)"] nonneg by fastforce
  from Cons.IH [OF nonneg this] show ?case by simp
qed

lemma sqrt_least: "sqrt (2 powi (- 1074)) = 2 powi (- 537)"
proof (rule real_sqrt_unique)
  have "(2::real) powi (- 537) * 2 powi (- 537) = 2 powi (- 537 + (- 537))"
    by (rule power_int_add [symmetric]) simp
  then show "((2::real) powi (- 537))\<^sup>2 = 2 powi (- 1074)"
    by (simp only: power2_eq_square) simp
  show "0 \<le> (2::real) powi (- 537)" by simp
qed

lemma linalg_norm_least:
  assumes "linalg_norm a \<noteq> 0"
  shows "2 powi (- 537) \<le> linalg_norm a"
proof -
  let ?d = "dot_acc 0 a a"
  have "?d \<noteq> 0" using assms by (auto simp: linalg_norm_def round64_zero)
  with dot_acc_squares [of 0 a] have "2 powi (- 1074) \<le> ?d" by simp
  then have "sqrt (2 powi (- 1074)) \<le> sqrt ?d" by (rule real_sqrt_le_mono)
  then have "2 powi (- 537) \<le> sqrt ?d" by (simp only: sqrt_least)
  then show ?thesis unfolding linalg_norm_def by (rule round64_ge_power) simp
qed

text \<open>The product of two norms that are not zero does not underflow to zero.\<close>

lemma norm_product_nonzero:
  assumes "linalg_norm a \<noteq> 0" "linalg_norm b \<noteq> 0"
  shows "round64 (linalg_norm a * linalg_norm b) \<noteq> 0"
proof -
  have "(2::real) powi (- 537) * 2 powi (- 537) \<le> linalg_norm a * linalg_norm b"
    using linalg_norm_least [OF assms(1)] linalg_norm_least [OF assms(2)]
    by (intro mult_mono) simp_all
  moreover have "(2::real) powi (- 537) * 2 powi (- 537) = 2 powi (- 537 + (- 537))"
    by (rule power_int_add [symmetric]) simp
  ultimately have "2 powi (- 1074) \<le> linalg_norm a * linalg_norm b" by simp
  then have "2 powi (- 1074) \<le> round64 (linalg_norm a * linalg_norm b)"
    by (rule round64_ge_power) simp
  moreover have "0 < (2::real) powi (- 1074)" by simp
  ultimately show ?thesis by linarith
qed

lemma cosine_sim_regular:
  assumes "length a = length b" "linalg_norm a \<noteq> 0" "linalg_norm b \<noteq> 0"
  shows "cosine_sim a b =
           Inr (round64 (dot_acc 0 a b / round64 (linalg_norm a * linalg_norm b)))"
  using cosine_sim_quotient [OF assms(1) norm_product_nonzero [OF assms(2,3)]] .






lemma round64_24_25: "round64 (24 / 25) = 8646911284551352 / 2 ^ 53"
proof -
  have "round_even ((24 / 25 :: real) * 2 ^ 53) = 8646911284551352"
    by (rule round_even_below) simp_all
  then show ?thesis
    using round64_eval [of "- 1" "24 / 25"] by (simp add: power_int_minus)
qed






text \<open>
  Claim C5 describes the sentinel \<open>- 1\<close> as a value outside the normal range of the
  cosine that never wins a ranking. It is inside the range: the zero vector against
  \<open>[1]\<close> and the two non-zero, opposite vectors \<open>[1]\<close> and \<open>[- 1]\<close> get the same score,
  and for the query embedding \<open>[1]\<close> the chunk with the zero vector is ranked before
  the chunk with the opposite vector.
\<close>

theorem cosine_sim_sentinel_in_range:
  "linalg_norm [0] = 0 \<and> linalg_norm [1] \<noteq> 0 \<and> linalg_norm [- 1] \<noteq> 0
   \<and> cosine_sim [0] [1] = Inr (- 1) \<and> cosine_sim [1] [- 1] = Inr (- 1)
   \<and> fst (retrieve (\<lambda>m c s. (Inr [1], s))
        \<lparr>filepath = ''media.txt'', embed_model = ''models/text-embedding-004'',
         chunks = [''zero'', ''opposite''], embeddings = [Some [0], Some [- 1]]\<rparr>
        ''q'' 1 \<lparr>service = (), logged = []\<rparr>)
     = Inr [\<lparr>chunk_id = 0, filename = ''media.txt'', text_value = ''zero'', score = - 1\<rparr>]"
  by (simp add: cosine_sim_def linalg_norm_def dot_def retrieve_def embed_def log_line_def
      basename_def sort_reverse_def py_slice_def slice_bound_def)

text \<open>A result below half of the smallest subnormal number underflows to zero, so a
  vector that is not zero can have the norm zero.\<close>

lemma half_least: "(2::real) powi (- 1075) = 2 powi (- 1074) / 2"
proof -
  have i: "(- 1075 :: int) = - 1074 + (- 1)" by simp
  have "(2::real) powi (- 1075) = 2 powi (- 1074) * 2 powi (- 1)"
    unfolding i by (rule power_int_add) simp
  also have "(2::real) powi (- 1) = 1 / 2" by (simp add: power_int_minus)
  finally show ?thesis by simp
qed

lemma round64_underflow:
  assumes "\<bar>x\<bar> < 2 powi (- 1075)"
  shows "round64 x = 0"
proof (cases "x = 0")
  case True
  then show ?thesis by simp
next
  case False
  define c where "c = (2::real) powi (- 1074)"
  have cpos: "0 < c" by (simp add: c_def)
  have half: "(2::real) powi (- 1075) = c / 2"
    unfolding c_def by (rule half_least)
  have "binade x = - 1022"
  proof (rule ccontr)
    assume "binade x \<noteq> - 1022"
    with binade_bounds(1) [OF False] have b: "- 1022 < binade x" by simp
    then have "(2::real) powi (- 1075) \<le> 2 powi (binade x)"
      by (intro power_int_increasing) simp_all
    with binade_bounds(3) [OF False b] assms show False by linarith
  qed
  then have u: "ulp x = c" by (simp add: ulp_def c_def)
  have "\<bar>x\<bar> / c < 1 / 2"
    using assms cpos unfolding half by (simp add: field_simps)
  then have "\<bar>x / c\<bar> < 1 / 2" using cpos by (simp add: abs_divide)
  then have small: "- (1 / 2) < x / c" "x / c < 1 / 2" by linarith+
  have "round_even (x / c) = 0"
  proof (cases "0 \<le> x / c")
    case True
    with small(2) show ?thesis by (intro round_even_below) simp_all
  next
    case neg: False
    with small(1) have "real_of_int (- 1) + 1 / 2 < x / c" "x / c < real_of_int (- 1) + 1"
      by simp_all
    then have "round_even (x / c) = - 1 + 1" by (rule round_even_between)
    then show ?thesis by simp
  qed
  then show ?thesis using False by (simp add: round64_def u)
qed


lemma linalg_norm_underflow: "linalg_norm [2 powi (- 600), 0] = 0"
proof -
  let ?x = "(2::real) powi (- 600)"
  have i: "(- 1200 :: int) = - 600 + (- 600)" by simp
  have sq: "?x * ?x = 2 powi (- 1200)"
    unfolding i by (rule power_int_add [symmetric]) simp
  have "(2::real) powi (- 1200) < 2 powi (- 1075)"
    by (intro power_int_strict_increasing) simp_all
  moreover have "\<bar>?x * ?x\<bar> = 2 powi (- 1200)"
    unfolding sq by (rule abs_of_pos) (rule zero_less_power_int, simp)
  ultimately have "\<bar>?x * ?x\<bar> < 2 powi (- 1075)" by (simp only:)
  then have z: "round64 (?x * ?x) = 0" by (rule round64_underflow)
  have "dot_acc 0 [?x, 0] [?x, 0]
          = round64 (round64 (0 + round64 (?x * ?x)) + round64 (0 * 0))"
    by (simp only: dot_acc.simps)
  also have "\<dots> = 0"
    by (simp only: z add_0_left add_0_right mult_zero_left round64_zero)
  finally show ?thesis by (simp only: linalg_norm_def real_sqrt_zero round64_zero)
qed

text \<open>
  Claim C5, amended. For vectors \<open>a\<close>, \<open>b\<close> of equal length whose sums of squares are
  within the range of the doubles: if either has zero norm (the vector is zero or its
  squares underflow), \<open>cosine_sim a b\<close> is the sentinel \<open>- 1\<close>; otherwise it is the dot
  product divided by the product of the norms, each operation rounded to a double. The
  sentinel crosses no grading threshold: its grade is \<open>Incorrect\<close>.
\<close>

theorem cosine_sim_cases:
  assumes "length a = length b"
    and "in_double_range (dot_acc 0 a a)" and "in_double_range (dot_acc 0 b b)"
  shows "(linalg_norm a = 0 \<or> linalg_norm b = 0 \<longrightarrow> cosine_sim a b = Inr (- 1))
    \<and> (linalg_norm a \<noteq> 0 \<and> linalg_norm b \<noteq> 0 \<longrightarrow>
          cosine_sim a b =
            Inr (round64 (dot_acc 0 a b / round64 (linalg_norm a * linalg_norm b)))
          \<and> dot a b = Inr (dot_acc 0 a b))
    \<and> grade (Some (- 1)) = Incorrect"
proof (intro conjI impI)
  assume "linalg_norm a = 0 \<or> linalg_norm b = 0"
  then show "cosine_sim a b = Inr (- 1)" by (rule cosine_sim_degenerate)
next
  assume "linalg_norm a \<noteq> 0 \<and> linalg_norm b \<noteq> 0"
  then show "cosine_sim a b =
      Inr (round64 (dot_acc 0 a b / round64 (linalg_norm a * linalg_norm b)))"
    using cosine_sim_regular [OF assms(1)] by simp
next
  show "dot a b = Inr (dot_acc 0 a b)"
    using assms(1) by (simp add: dot_def)
next
  show "grade (Some (- 1)) = Incorrect" by simp
qed

theorem cosine_sim_cases_witness:
  "cosine_sim [0, 0] [4, 3] = Inr (- 1)
   \<and> cosine_sim [3, 4] [4, 3] = Inr (8646911284551352 / 2 ^ 53)"
proof -
  have same: "length [0, 0 :: real] = length [4, 3 :: real]"
    "length [3, 4 :: real] = length [4, 3 :: real]" by simp_all
  have range: "in_double_range (dot_acc 0 [0, 0] [0, 0])"
    "in_double_range (dot_acc 0 [4, 3] [4, 3])" "in_double_range (dot_acc 0 [3, 4] [3, 4])"
    by (simp_all add: in_double_range_def)
  from cosine_sim_cases [OF same(1) range(1) range(2)]
    cosine_sim_cases [OF same(2) range(3) range(2)]
  show ?thesis by (simp add: linalg_norm_def round64_24_25)
qed

section \<open>Chunker\<close>

lemma is_space_blank: "is_space (CHR '' '')"
  by (simp add: is_space_def)

lemma split_acc_plain:
  "\<forall>c\<in>set cur. \<not> is_space c \<Longrightarrow> w \<in> set (split_acc cur s) \<Longrightarrow> plain_word w"
proof (induction s arbitrary: cur)
  case Nil
  then show ?case by (auto simp: plain_word_def split: if_splits)
next
  case (Cons c s)
  show ?case
  proof (cases "is_space c")
    case True
    with Cons.prems have "w = cur \<and> cur \<noteq> [] \<or> w \<in> set (split_acc [] s)"
      by (auto split: if_splits)
    then show ?thesis
      using Cons.IH [of "[]"] Cons.prems(1) by (auto simp: plain_word_def)
  next
    case False
    with Cons.prems have "w \<in> set (split_acc (cur @ [c]) s)" by simp
    moreover have "\<forall>d\<in>set (cur @ [c]). \<not> is_space d"
      using Cons.prems(1) False by simp
    ultimately show ?thesis using Cons.IH by blast
  qed
qed

lemma str_split_plain: "w \<in> set (str_split s) \<Longrightarrow> plain_word w"
  using split_acc_plain [of "[]" w s] by (simp add: str_split_def)

lemma split_acc_word:
  "\<forall>c\<in>set w. \<not> is_space c \<Longrightarrow> split_acc cur (w @ s) = split_acc (cur @ w) s"
  by (induction w arbitrary: cur) auto

lemma str_split_join:
  "\<forall>w\<in>set ws. plain_word w \<Longrightarrow> str_split (str_join '' '' ws) = ws"
proof (induction "'' ''" ws rule: str_join.induct)
  case 1
  then show ?case by (simp add: str_split_def)
next
  case (2 w)
  then have "plain_word w" by simp
  then show ?case
    using split_acc_word [of w "[]" "[]"] by (simp add: str_split_def plain_word_def)
next
  case (3 w v ws)
  then have w: "plain_word w" and rest: "\<forall>x\<in>set (v # ws). plain_word x" by simp_all
  have ih: "split_acc [] (str_join '' '' (v # ws)) = v # ws"
    using 3 rest by (simp add: str_split_def)
  have "split_acc [] (w @ '' '' @ str_join '' '' (v # ws))
          = split_acc w ('' '' @ str_join '' '' (v # ws))"
    using w split_acc_word [of w "[]"] by (simp add: plain_word_def)
  also have "\<dots> = w # split_acc [] (str_join '' '' (v # ws))"
    using w is_space_blank by (simp add: plain_word_def)
  finally show ?case using ih by (simp add: str_split_def)
qed

lemma py_slice_window:
  assumes "0 \<le> i" "0 < k"
  shows "py_slice xs i (i + k) = take (nat k) (drop (nat i) xs)"
proof (cases "i + k \<le> int (length xs)")
  case True
  with assms show ?thesis
    by (simp add: py_slice_def slice_bound_def min_def)
next
  case False
  with assms have "py_slice xs i (i + k) = take (nat (int (length xs) - min i (int (length xs)))) (drop (nat (min i (int (length xs)))) xs)"
    by (simp add: py_slice_def slice_bound_def min_def)
  also have "\<dots> = drop (nat i) xs"
    using assms by (auto simp: min_def)
  also have "\<dots> = take (nat k) (drop (nat i) xs)"
    using False assms by simp
  finally show ?thesis .
qed

lemma overlap_window:
  assumes "ov \<le> k"
  shows "drop ov (take k xs) @ drop ov (drop (k - ov) xs) = drop ov xs"
proof -
  have "drop ov xs = drop ov (take k xs @ drop k xs)" by simp
  also have "\<dots> = drop ov (take k xs) @ drop (ov - length (take k xs)) (drop k xs)"
    by (rule drop_append)
  also have "drop (ov - length (take k xs)) (drop k xs) = drop k xs"
  proof (cases "k \<le> length xs")
    case True
    then show ?thesis using assms by (simp add: min_def)
  next
    case False
    then show ?thesis by simp
  qed
  also have "drop k xs = drop ov (drop (k - ov) xs)" using assms by simp
  finally show ?thesis by simp
qed

lemma chunk_loop_diverges:
  assumes ret: "chunk_loop words chunk_size overlap i acc = Some res"
  shows "\<not> (words \<noteq> [] \<and> chunk_size \<le> overlap \<and> i \<le> 0)"
proof (rule chunk_loop.raw_induct
    [where P = "\<lambda>ws k ov j a y. \<not> (ws \<noteq> [] \<and> k \<le> ov \<and> j \<le> 0)", OF _ ret])
  fix loop :: "string list \<Rightarrow> int \<Rightarrow> int \<Rightarrow> int \<Rightarrow> string list \<Rightarrow> string list option"
  fix ws :: "string list" and k ov j :: int and a y :: "string list"
  assume ih: "\<And>ws k ov j a y. loop ws k ov j a = Some y
                \<Longrightarrow> \<not> (ws \<noteq> [] \<and> k \<le> ov \<and> j \<le> 0)"
  assume body: "(if j < int (length ws)
      then let chunk = str_join '' '' (py_slice ws j (j + k))
           in loop ws k ov (j + (k - ov)) (if chunk \<noteq> [] then a @ [chunk] else a)
      else Some a) = Some y"
  show "\<not> (ws \<noteq> [] \<and> k \<le> ov \<and> j \<le> 0)"
  proof
    assume c: "ws \<noteq> [] \<and> k \<le> ov \<and> j \<le> 0"
    then have "j < int (length ws)" by (cases ws) auto
    with body obtain a' where "loop ws k ov (j + (k - ov)) a' = Some y"
      by (auto simp: Let_def)
    from ih [OF this] c show False by simp
  qed
qed

lemma chunk_loop_never_returns:
  "words \<noteq> [] \<Longrightarrow> chunk_size \<le> overlap \<Longrightarrow> i \<le> 0
     \<Longrightarrow> chunk_loop words chunk_size overlap i acc = None"
  using chunk_loop_diverges [of words chunk_size overlap i acc]
  by (cases "chunk_loop words chunk_size overlap i acc") auto

lemma chunk_text_no_guard:
  assumes "chunk_size \<le> overlap"
  shows "chunk_text txt chunk_size overlap = (if str_split txt = [] then Some [] else None)"
proof (cases "str_split txt = []")
  case True
  then show ?thesis by (simp add: chunk_text_def chunk_loop.simps)
next
  case False
  then show ?thesis
    using assms by (simp add: chunk_text_def chunk_loop_never_returns)
qed

lemma str_split_nil: "str_split [] = []"
  by (simp add: str_split_def)

lemma str_split_a: "str_split ''a'' = [''a'']"
  by (simp add: str_split_def is_space_def)

text \<open>
  Claim C3 says that the chunker rejects every call with \<open>overlap \<ge> chunk_size\<close> by a
  configuration error, without looping forever and without returning chunks. The code
  has no such check: with \<open>chunk_size = overlap = 1\<close> the loop never returns on the text
  \<open>''a''\<close>, and on the empty text it returns the empty chunk sequence.
\<close>

theorem chunk_text_unguarded_overlap:
  "chunk_text ''a'' 1 1 = None \<and> chunk_text [] 1 1 = Some []"
  by (simp add: chunk_text_no_guard str_split_a str_split_nil)

lemma chunk_loop_returns:
  assumes words: "\<forall>w\<in>set words. plain_word w"
    and sz: "0 < chunk_size" "0 \<le> overlap" "overlap < chunk_size"
  shows "0 \<le> i \<Longrightarrow>
    \<exists>new. chunk_loop words chunk_size overlap i acc = Some (acc @ new)
      \<and> (\<forall>c\<in>set new. length (str_split c) \<le> nat chunk_size)
      \<and> concat (map (\<lambda>c. drop (nat overlap) (str_split c)) new)
            = drop (nat overlap) (drop (nat i) words)
      \<and> (case new of [] \<Rightarrow> int (length words) \<le> i
           | c # _ \<Rightarrow> str_split c = take (nat chunk_size) (drop (nat i) words))"
proof (induction "nat (int (length words) - i)" arbitrary: i acc rule: less_induct)
  case less
  show ?case
  proof (cases "i < int (length words)")
    case False
    then show ?thesis by (subst chunk_loop.simps) simp
  next
    case True
    let ?win = "take (nat chunk_size) (drop (nat i) words)"
    let ?chunk = "str_join '' '' ?win"
    let ?i' = "i + (chunk_size - overlap)"
    have slice: "py_slice words i (i + chunk_size) = ?win"
      using less.prems sz(1) by (rule py_slice_window)
    have "\<forall>w\<in>set ?win. plain_word w"
      using words by (meson in_set_dropD in_set_takeD)
    then have split: "str_split ?chunk = ?win" by (rule str_split_join)
    have "?win \<noteq> []" using True less.prems sz(1) by simp
    with split have nonempty: "?chunk \<noteq> []" using str_split_nil by metis
    have step: "chunk_loop words chunk_size overlap i acc
                  = chunk_loop words chunk_size overlap ?i' (acc @ [?chunk])"
      using True nonempty slice by (subst chunk_loop.simps) (simp add: Let_def)
    have "nat (int (length words) - ?i') < nat (int (length words) - i)"
      using True sz by simp
    moreover have "0 \<le> ?i'" using less.prems sz by simp
    ultimately obtain new where
      ret: "chunk_loop words chunk_size overlap ?i' (acc @ [?chunk])
              = Some ((acc @ [?chunk]) @ new)"
      and bound: "\<forall>c\<in>set new. length (str_split c) \<le> nat chunk_size"
      and rest: "concat (map (\<lambda>c. drop (nat overlap) (str_split c)) new)
                   = drop (nat overlap) (drop (nat ?i') words)"
      using less.hyps [of ?i' "acc @ [?chunk]"] by blast
    have "nat ?i' = (nat chunk_size - nat overlap) + nat i"
      using less.prems sz by simp
    then have "drop (nat overlap) (drop (nat ?i') words)
                 = drop (nat overlap) (drop (nat chunk_size - nat overlap) (drop (nat i) words))"
      by simp
    moreover have "nat overlap \<le> nat chunk_size" using sz by simp
    ultimately have cover:
      "drop (nat overlap) ?win @ drop (nat overlap) (drop (nat ?i') words)
         = drop (nat overlap) (drop (nat i) words)"
      using overlap_window [of "nat overlap" "nat chunk_size" "drop (nat i) words"] by simp
    have "chunk_loop words chunk_size overlap i acc = Some (acc @ (?chunk # new))"
      using step ret by simp
    moreover have "\<forall>c\<in>set (?chunk # new). length (str_split c) \<le> nat chunk_size"
      using bound split by simp
    moreover have "concat (map (\<lambda>c. drop (nat overlap) (str_split c)) (?chunk # new))
                     = drop (nat overlap) (drop (nat i) words)"
      using rest split cover by simp
    moreover have "str_split ?chunk = ?win" by (rule split)
    ultimately show ?thesis
      by (intro exI [of _ "?chunk # new"]) simp
  qed
qed

text \<open>
  Claim C4. For every text, every \<open>chunk_size > 0\<close> and every \<open>0 \<le> overlap < chunk_size\<close>
  the chunker returns; each chunk has at most \<open>chunk_size\<close> whitespace-delimited words;
  the words of the first chunk followed by the words of each later chunk without its
  first \<open>overlap\<close> words are the words of the text; the empty text gives no chunk.
\<close>

theorem chunk_text_reconstructs:
  assumes "0 < chunk_size" "0 \<le> overlap" "overlap < chunk_size"
  shows "\<exists>cs. chunk_text txt chunk_size overlap = Some cs
    \<and> (\<forall>c\<in>set cs. length (str_split c) \<le> nat chunk_size)
    \<and> (case cs of [] \<Rightarrow> str_split txt = []
         | c # rest \<Rightarrow>
             str_split c @ concat (map (\<lambda>d. drop (nat overlap) (str_split d)) rest)
               = str_split txt)
    \<and> (txt = [] \<longrightarrow> cs = [])"
proof -
  let ?ws = "str_split txt"
  have "\<forall>w\<in>set ?ws. plain_word w" by (simp add: str_split_plain)
  from chunk_loop_returns [OF this assms, of 0 "[]"]
  obtain cs where ret: "chunk_loop ?ws chunk_size overlap 0 [] = Some cs"
    and bound: "\<forall>c\<in>set cs. length (str_split c) \<le> nat chunk_size"
    and rest: "concat (map (\<lambda>c. drop (nat overlap) (str_split c)) cs)
                 = drop (nat overlap) ?ws"
    and first: "case cs of [] \<Rightarrow> int (length ?ws) \<le> 0
                | c # _ \<Rightarrow> str_split c = take (nat chunk_size) (drop (nat 0) ?ws)"
    by force
  have whole: "case cs of [] \<Rightarrow> ?ws = []
      | c # rest \<Rightarrow>
          str_split c @ concat (map (\<lambda>d. drop (nat overlap) (str_split d)) rest) = ?ws"
  proof (cases cs)
    case Nil
    with first show ?thesis by simp
  next
    case (Cons c tl)
    with first have c: "str_split c = take (nat chunk_size) ?ws" by simp
    from rest Cons c have
      "drop (nat overlap) (take (nat chunk_size) ?ws)
         @ concat (map (\<lambda>d. drop (nat overlap) (str_split d)) tl)
       = drop (nat overlap) ?ws" by simp
    moreover have "take (nat chunk_size) ?ws
        = take (nat overlap) ?ws @ drop (nat overlap) (take (nat chunk_size) ?ws)"
    proof -
      have "take (nat overlap) (take (nat chunk_size) ?ws) = take (nat overlap) ?ws"
        using assms by (simp add: min_def)
      then show ?thesis
        by (metis append_take_drop_id)
    qed
    ultimately have "take (nat chunk_size) ?ws
         @ concat (map (\<lambda>d. drop (nat overlap) (str_split d)) tl) = ?ws"
      by (metis append.assoc append_take_drop_id)
    with Cons c show ?thesis by simp
  qed
  have "txt = [] \<longrightarrow> cs = []"
  proof
    assume "txt = []"
    then have "?ws = []" by (simp add: str_split_nil)
    with ret show "cs = []" by (simp add: chunk_loop.simps)
  qed
  with ret bound whole show ?thesis by (simp add: chunk_text_def)
qed


lemma media_words:
  "str_split ''Media is a means of communication. Television is mass media because it reaches millions of people.''
     = [''Media'', ''is'', ''a'', ''means'', ''of'', ''communication.'',
        ''Television'', ''is'', ''mass'', ''media'', ''because'', ''it'',
        ''reaches'', ''millions'', ''of'', ''people.'']"
  by code_simp

lemma media_chunks:
  "chunk_text ''Media is a means of communication. Television is mass media because it reaches millions of people.'' 10 2
     = Some [''Media is a means of communication. Television is mass media'',
             ''mass media because it reaches millions of people.'']"
  unfolding chunk_text_def media_words
  by (simp add: chunk_loop.simps py_slice_def slice_bound_def)

theorem chunk_text_reconstructs_witness:
  "(0::int) < 10 \<and> (0::int) \<le> 2 \<and> (2::int) < 10
   \<and> chunk_text ''Media is a means of communication. Television is mass media because it reaches millions of people.'' 10 2
     = Some [''Media is a means of communication. Television is mass media'',
             ''mass media because it reaches millions of people.'']
   \<and> length (str_split ''Media is a means of communication. Television is mass media'') \<le> 10
   \<and> length (str_split ''mass media because it reaches millions of people.'') \<le> 10
   \<and> str_split ''Media is a means of communication. Television is mass media''
         @ drop 2 (str_split ''mass media because it reaches millions of people.'')
       = str_split ''Media is a means of communication. Television is mass media because it reaches millions of people.''"
  using chunk_text_reconstructs [of 10 2
      "''Media is a means of communication. Television is mass media because it reaches millions of people.''"]
  by (simp add: media_chunks)

section \<open>Retriever\<close>





lemma length_sort_reverse: "length (sort_reverse key xs) = length xs"
  by (simp add: sort_reverse_def)

lemma py_slice_prefix: "0 \<le> k \<Longrightarrow> py_slice xs 0 k = take (nat k) xs"
  by (auto simp: py_slice_def slice_bound_def min_def Let_def)

lemma embed_result:
  "fst (embed ec r content w) =
     (case fst (ec (embed_model r) content (service w)) of Inl e \<Rightarrow> None | Inr v \<Rightarrow> Some v)"
  by (simp add: embed_def split: prod.splits sum.splits)

lemma embed_model_only:
  "embed_model r = embed_model r' \<Longrightarrow> embed ec r content w = embed ec r' content w"
  by (simp add: embed_def)

lemma score_chunks_correct:
  assumes "\<forall>(c, e)\<in>set zs. \<forall>v. e = Some v \<longrightarrow> length v = length q"
  shows "\<exists>scored. score_chunks fname q idx zs = Inr scored
    \<and> sorted_wrt (\<lambda>x y. chunk_id x < chunk_id y) scored
    \<and> (\<forall>x\<in>set scored. idx \<le> chunk_id x \<and> chunk_id x < idx + length zs
          \<and> filename x = fname
          \<and> (\<exists>v. zs ! (chunk_id x - idx) = (text_value x, Some v)
                \<and> cosine_sim q v = Inr (score x)))
    \<and> (\<forall>k<length zs. \<forall>c v. zs ! k = (c, Some v) \<longrightarrow>
          (\<exists>x\<in>set scored. chunk_id x = idx + k))
    \<and> length scored = length (filter (\<lambda>(c, e). e \<noteq> None) zs)"
  using assms
proof (induction fname q idx zs rule: score_chunks.induct)
  case (1 fname q idx)
  then show ?case by simp
next
  case (2 fname q idx chunk rest)
  then obtain scored where s: "score_chunks fname q (Suc idx) rest = Inr scored"
    and ord: "sorted_wrt (\<lambda>x y. chunk_id x < chunk_id y) scored"
    and ent: "\<forall>x\<in>set scored. Suc idx \<le> chunk_id x \<and> chunk_id x < Suc idx + length rest
          \<and> filename x = fname
          \<and> (\<exists>v. rest ! (chunk_id x - Suc idx) = (text_value x, Some v)
                \<and> cosine_sim q v = Inr (score x))"
    and cov: "\<forall>k<length rest. \<forall>c v. rest ! k = (c, Some v) \<longrightarrow>
          (\<exists>x\<in>set scored. chunk_id x = Suc idx + k)"
    and len: "length scored = length (filter (\<lambda>(c, e). e \<noteq> None) rest)"
    by auto
  have ent': "\<forall>x\<in>set scored. idx \<le> chunk_id x \<and> chunk_id x < idx + length ((chunk, None) # rest)
          \<and> filename x = fname
          \<and> (\<exists>v. ((chunk, None) # rest) ! (chunk_id x - idx) = (text_value x, Some v)
                \<and> cosine_sim q v = Inr (score x))"
  proof
    fix x assume "x \<in> set scored"
    with ent have e: "Suc idx \<le> chunk_id x" "chunk_id x < Suc idx + length rest"
      "filename x = fname"
      "\<exists>v. rest ! (chunk_id x - Suc idx) = (text_value x, Some v) \<and> cosine_sim q v = Inr (score x)"
      by auto
    from e(1) have "chunk_id x - idx = Suc (chunk_id x - Suc idx)" by simp
    with e show "idx \<le> chunk_id x \<and> chunk_id x < idx + length ((chunk, None) # rest)
          \<and> filename x = fname
          \<and> (\<exists>v. ((chunk, None) # rest) ! (chunk_id x - idx) = (text_value x, Some v)
                \<and> cosine_sim q v = Inr (score x))" by simp
  qed
  have cov': "\<forall>k<length ((chunk, None) # rest). \<forall>c v. ((chunk, None) # rest) ! k = (c, Some v) \<longrightarrow>
          (\<exists>x\<in>set scored. chunk_id x = idx + k)"
  proof (intro allI impI)
    fix k c v assume k: "k < length ((chunk, None) # rest)" and at: "((chunk, None) # rest) ! k = (c, Some v)"
    then obtain j where "k = Suc j" by (cases k) auto
    with k at cov show "\<exists>x\<in>set scored. chunk_id x = idx + k" by auto
  qed
  from s ord ent' cov' len show ?case by simp
next
  case (3 fname q idx chunk emb rest)
  then have "length emb = length q" by simp
  then obtain sc where sc: "cosine_sim q emb = Inr sc"
    using cosine_sim_returns [of q emb] by auto
  from 3 sc obtain scored where s: "score_chunks fname q (Suc idx) rest = Inr scored"
    and ord: "sorted_wrt (\<lambda>x y. chunk_id x < chunk_id y) scored"
    and ent: "\<forall>x\<in>set scored. Suc idx \<le> chunk_id x \<and> chunk_id x < Suc idx + length rest
          \<and> filename x = fname
          \<and> (\<exists>v. rest ! (chunk_id x - Suc idx) = (text_value x, Some v)
                \<and> cosine_sim q v = Inr (score x))"
    and cov: "\<forall>k<length rest. \<forall>c v. rest ! k = (c, Some v) \<longrightarrow>
          (\<exists>x\<in>set scored. chunk_id x = Suc idx + k)"
    and len: "length scored = length (filter (\<lambda>(c, e). e \<noteq> None) rest)"
    by auto
  let ?zs = "(chunk, Some emb) # rest"
  let ?new = "\<lparr>chunk_id = idx, filename = fname, text_value = chunk, score = sc\<rparr>"
  have res: "score_chunks fname q idx ?zs = Inr (?new # scored)"
    using sc s by simp
  have ord': "sorted_wrt (\<lambda>x y. chunk_id x < chunk_id y) (?new # scored)"
    using ord ent by auto
  have ent': "\<forall>x\<in>set (?new # scored). idx \<le> chunk_id x \<and> chunk_id x < idx + length ?zs
          \<and> filename x = fname
          \<and> (\<exists>v. ?zs ! (chunk_id x - idx) = (text_value x, Some v)
                \<and> cosine_sim q v = Inr (score x))"
  proof
    fix x assume "x \<in> set (?new # scored)"
    then consider "x = ?new" | "x \<in> set scored" by auto
    then show "idx \<le> chunk_id x \<and> chunk_id x < idx + length ?zs
          \<and> filename x = fname
          \<and> (\<exists>v. ?zs ! (chunk_id x - idx) = (text_value x, Some v)
                \<and> cosine_sim q v = Inr (score x))"
    proof cases
      case 1
      then show ?thesis using sc by simp
    next
      case 2
      with ent have e: "Suc idx \<le> chunk_id x" "chunk_id x < Suc idx + length rest"
        "filename x = fname"
        "\<exists>v. rest ! (chunk_id x - Suc idx) = (text_value x, Some v) \<and> cosine_sim q v = Inr (score x)"
        by auto
      from e(1) have "chunk_id x - idx = Suc (chunk_id x - Suc idx)" by simp
      with e show ?thesis by simp
    qed
  qed
  have cov': "\<forall>k<length ?zs. \<forall>c v. ?zs ! k = (c, Some v) \<longrightarrow>
          (\<exists>x\<in>set (?new # scored). chunk_id x = idx + k)"
  proof (intro allI impI)
    fix k c v assume k: "k < length ?zs" and at: "?zs ! k = (c, Some v)"
    show "\<exists>x\<in>set (?new # scored). chunk_id x = idx + k"
    proof (cases k)
      case 0
      then show ?thesis by simp
    next
      case (Suc j)
      with k at cov show ?thesis by auto
    qed
  qed
  from res ord' ent' cov' len show ?case by simp
qed


lemma retrieve_embedded:
  assumes "fst (ec (embed_model r) query (service w)) = Inr q"
  shows "fst (retrieve ec r query top_k w) =
    (case score_chunks (basename (filepath r)) q 0 (zip (chunks r) (embeddings r)) of
       Inl e \<Rightarrow> Inl e
     | Inr scored \<Rightarrow> Inr (py_slice (sort_reverse score scored) 0 top_k))"
  using assms
  by (auto simp: retrieve_def embed_def log_line_def Let_def split: prod.splits sum.splits)

lemma retrieve_not_embedded:
  assumes "fst (ec (embed_model r) query (service w)) = Inl e"
  shows "fst (retrieve ec r query top_k w) = Inr []"
  using assms
  by (auto simp: retrieve_def embed_def log_line_def Let_def split: prod.splits sum.splits)

lemma retrieve_keeps_retriever: "fst (snd (retrieve ec r query top_k w)) = r"
  by (auto simp: retrieve_def Let_def split: prod.splits sum.splits option.splits)




lemma score_chunks_all_absent:
  "\<forall>(c, e)\<in>set zs. e = None \<Longrightarrow> score_chunks fname q idx zs = Inr []"
  by (induction fname q idx zs rule: score_chunks.induct) auto

lemma score_chunks_none_scored:
  "score_chunks fname q idx zs = Inr [] \<Longrightarrow> \<forall>(c, e)\<in>set zs. e = None"
  by (induction fname q idx zs rule: score_chunks.induct) (auto split: sum.splits)

lemma sort_reverse_nil_iff: "sort_reverse key xs = [] \<longleftrightarrow> xs = []"
  using length_sort_reverse [of key xs] by (metis length_0_conv)

lemma retrieve_returns:
  assumes "\<forall>q v. fst (ec (embed_model r) query (service w)) = Inr q
             \<and> Some v \<in> set (embeddings r) \<longrightarrow> length v = length q"
  shows "\<exists>res. fst (retrieve ec r query top_k w) = Inr res"
proof (cases "fst (ec (embed_model r) query (service w))")
  case (Inl e)
  then show ?thesis by (simp add: retrieve_not_embedded)
next
  case (Inr q)
  with assms have "\<forall>(c, e)\<in>set (zip (chunks r) (embeddings r)).
      \<forall>v. e = Some v \<longrightarrow> length v = length q"
    by (auto dest: set_zip_rightD)
  from score_chunks_correct [OF this, of "basename (filepath r)" 0]
  obtain scored where
    "score_chunks (basename (filepath r)) q 0 (zip (chunks r) (embeddings r)) = Inr scored"
    by auto
  then show ?thesis
    using retrieve_embedded [of ec r query w q top_k] Inr by simp
qed

text \<open>
  Claim C6. \<open>retrieve\<close> does not raise and returns the empty list in the failure cases:
  when the embedding of the query is absent, whatever the stored chunks are, and when
  the embedding of every chunk is absent, whatever the query is. For a positive
  \<open>top_k\<close> these are the only cases with an empty result. In every case \<open>retrieve\<close>
  returns a list when the stored embeddings have the dimension of the query embedding.
\<close>

theorem retrieve_empty_on_failure:
  "(fst (ec (embed_model r) query (service w)) = Inl e
      \<longrightarrow> fst (retrieve ec r query top_k w) = Inr [])
   \<and> ((\<forall>x\<in>set (embeddings r). x = None)
      \<longrightarrow> fst (retrieve ec r query top_k w) = Inr [])
   \<and> (0 < top_k \<and> length (embeddings r) = length (chunks r)
        \<and> fst (retrieve ec r query top_k w) = Inr []
      \<longrightarrow> (\<exists>e'. fst (ec (embed_model r) query (service w)) = Inl e')
          \<or> (\<forall>x\<in>set (embeddings r). x = None))
   \<and> ((\<forall>q v. fst (ec (embed_model r) query (service w)) = Inr q
              \<and> Some v \<in> set (embeddings r) \<longrightarrow> length v = length q)
      \<longrightarrow> (\<exists>res. fst (retrieve ec r query top_k w) = Inr res))"
proof (intro conjI impI)
  assume "\<forall>q v. fst (ec (embed_model r) query (service w)) = Inr q
              \<and> Some v \<in> set (embeddings r) \<longrightarrow> length v = length q"
  then show "\<exists>res. fst (retrieve ec r query top_k w) = Inr res"
    by (rule retrieve_returns)
next
  assume "fst (ec (embed_model r) query (service w)) = Inl e"
  then show "fst (retrieve ec r query top_k w) = Inr []"
    by (rule retrieve_not_embedded)
next
  assume absent: "\<forall>x\<in>set (embeddings r). x = None"
  then have "\<forall>(c, e)\<in>set (zip (chunks r) (embeddings r)). e = None"
    by (auto dest: set_zip_rightD)
  then have sc: "\<And>q. score_chunks (basename (filepath r)) q 0
      (zip (chunks r) (embeddings r)) = Inr []"
    by (rule score_chunks_all_absent)
  show "fst (retrieve ec r query top_k w) = Inr []"
  proof (cases "fst (ec (embed_model r) query (service w))")
    case (Inl e')
    then show ?thesis by (rule retrieve_not_embedded)
  next
    case (Inr q)
    then show ?thesis
      using retrieve_embedded [of ec r query w q top_k] sc [of q]
      by (simp add: py_slice_def sort_reverse_def)
  qed
next
  assume a: "0 < top_k \<and> length (embeddings r) = length (chunks r)
        \<and> fst (retrieve ec r query top_k w) = Inr []"
  show "(\<exists>e'. fst (ec (embed_model r) query (service w)) = Inl e')
          \<or> (\<forall>x\<in>set (embeddings r). x = None)"
  proof (cases "fst (ec (embed_model r) query (service w))")
    case (Inl e')
    then show ?thesis by simp
  next
    case (Inr q)
    let ?zs = "zip (chunks r) (embeddings r)"
    from a retrieve_embedded [of ec r query w q top_k] Inr
    obtain scored where sc: "score_chunks (basename (filepath r)) q 0 ?zs = Inr scored"
      and "py_slice (sort_reverse score scored) 0 top_k = []"
      by (auto split: sum.splits)
    then have "take (nat top_k) (sort_reverse score scored) = []"
      using a by (simp add: py_slice_prefix)
    then have "scored = []" using a by (simp add: sort_reverse_nil_iff)
    with sc have "\<forall>(c, e)\<in>set ?zs. e = None"
      using score_chunks_none_scored by blast
    moreover have "set (embeddings r) = snd ` set ?zs"
      using a by (metis map_snd_zip set_map)
    ultimately have "\<forall>x\<in>set (embeddings r). x = None" by auto
    then show ?thesis by simp
  qed
qed

theorem retrieve_empty_on_failure_witness:
  "fst (retrieve (\<lambda>m c s. (Inl (ServiceException ''quota''), s))
        \<lparr>filepath = ''media.txt'', embed_model = ''models/text-embedding-004'',
         chunks = [''a''], embeddings = [Some [1, 0]]\<rparr>
        ''q'' 3 \<lparr>service = (), logged = []\<rparr>) = Inr []
   \<and> fst (retrieve (\<lambda>m c s. (Inr [1, 0], s))
        \<lparr>filepath = ''media.txt'', embed_model = ''models/text-embedding-004'',
         chunks = [''a'', ''b''], embeddings = [None, None]\<rparr>
        ''q'' 3 \<lparr>service = (), logged = []\<rparr>) = Inr []"
  using retrieve_empty_on_failure [of "\<lambda>m c s. (Inl (ServiceException ''quota''), s)"
      "\<lparr>filepath = ''media.txt'', embed_model = ''models/text-embedding-004'',
        chunks = [''a''], embeddings = [Some [1, 0]]\<rparr>"
      "''q''" "\<lparr>service = (), logged = []\<rparr>" "ServiceException ''quota''" 3]
    retrieve_empty_on_failure [of "\<lambda>m c s. (Inr [1, 0], s)"
      "\<lparr>filepath = ''media.txt'', embed_model = ''models/text-embedding-004'',
        chunks = [''a'', ''b''], embeddings = [None, None]\<rparr>"
      "''q''" "\<lparr>service = (), logged = []\<rparr>" "ServiceException ''quota''" 3]
  by simp

lemma chunk_text_returns:
  assumes "0 < chunk_size" "0 \<le> overlap" "overlap < chunk_size"
  shows "\<exists>cs. chunk_text txt chunk_size overlap = Some cs"
proof -
  have "\<forall>w\<in>set (str_split txt). plain_word w" by (simp add: str_split_plain)
  from chunk_loop_returns [OF this assms, of 0 "[]"] show ?thesis
    by (auto simp: chunk_text_def)
qed

lemma embed_chunks_length: "length (fst (embed_chunks ec r cs w)) = length cs"
  by (induction cs arbitrary: w) (simp_all add: Let_def case_prod_unfold)

lemma embed_chunks_nth:
  "i < length cs \<Longrightarrow>
     fst (embed_chunks ec r cs w) ! i
       = fst (embed ec r (cs ! i) (snd (embed_chunks ec r (take i cs) w)))"
proof (induction cs arbitrary: i w)
  case Nil
  then show ?case by simp
next
  case (Cons c cs)
  show ?case
  proof (cases i)
    case 0
    then show ?thesis by (simp add: Let_def case_prod_unfold)
  next
    case (Suc j)
    with Cons.prems have "j < length cs" by simp
    from Cons.IH [OF this] Suc show ?thesis
      by (simp add: Let_def case_prod_unfold)
  qed
qed

lemma embed_chunks_model_only:
  "embed_model r = embed_model r' \<Longrightarrow> embed_chunks ec r cs w = embed_chunks ec r' cs w"
  by (induction cs arbitrary: w) (auto simp: embed_model_only [of r r'])

lemma embed_absent_iff:
  "fst (embed ec r content w) = None
     \<longleftrightarrow> (\<exists>e. fst (ec (embed_model r) content (service w)) = Inl e)"
  by (auto simp: embed_result split: sum.splits)

lemma submit_answer_keeps_retriever:
  "fst (snd (snd (submit_answer ec gen build_prompt r q answer clicked st w))) = r"
proof -
  have "\<And>res r1 w1. retrieve ec r q 3 w = (res, r1, w1) \<Longrightarrow> r1 = r"
    using retrieve_keeps_retriever [of ec r q 3 w] by simp
  then show ?thesis
    by (auto simp: submit_answer_def Let_def split: prod.splits sum.splits)
qed

text \<open>
  Claim C7. After the construction of a retriever the list of embeddings has the length
  of the list of chunks, the chunks being all the chunks of the source text; the entry
  at position \<open>i\<close> is absent exactly when the embedding call for chunk \<open>i\<close> failed (the
  call is made in the service state left by the calls for the chunks before it). The
  operations that follow, \<open>retrieve\<close> and the answer handler, leave the retriever as
  it is, and with it these facts.
\<close>

theorem embeddings_parallel_to_chunks:
  assumes src: "fs path = Some txt"
  shows "\<exists>r w'. new_retriever ec fs path w = Some (Inr r, w')
    \<and> chunk_text txt 300 50 = Some (chunks r)
    \<and> length (embeddings r) = length (chunks r)
    \<and> (\<forall>i<length (chunks r).
          (embeddings r ! i = None) =
          (\<exists>e. fst (ec (embed_model r) (chunks r ! i)
                 (service (snd (embed_chunks ec r (take i (chunks r))
                    (log_line (LogChunking (length (chunks r)))
                       (log_line (LogInitializing path) w)))))) = Inl e))
    \<and> (\<forall>query top_k w2. fst (snd (retrieve ec r query top_k w2)) = r)
    \<and> (\<forall>gen build_prompt q answer clicked st w2.
          fst (snd (snd (submit_answer ec gen build_prompt r q answer clicked st w2))) = r)"
proof -
  obtain cs where cs: "chunk_text txt 300 50 = Some cs"
    using chunk_text_returns [of 300 50 "txt"] by auto
  let ?r0 = "\<lparr>filepath = path, embed_model = ''models/text-embedding-004'',
              chunks = [], embeddings = []\<rparr>"
  let ?r1 = "?r0\<lparr>chunks := cs, embeddings := []\<rparr>"
  let ?w1 = "log_line (LogChunking (length cs)) (log_line (LogInitializing path) w)"
  let ?run = "embed_chunks ec ?r1 cs ?w1"
  let ?r = "?r1\<lparr>embeddings := fst ?run\<rparr>"
  have new: "new_retriever ec fs path w = Some (Inr ?r, snd ?run)"
    using src cs
    by (simp add: new_retriever_def load_and_embed_chunks_def Let_def split: prod.splits)
  have chunks: "chunks ?r = cs" by simp
  have len: "length (embeddings ?r) = length (chunks ?r)"
    by (simp add: embed_chunks_length)
  have same: "embed_chunks ec ?r = embed_chunks ec ?r1"
    by (intro ext embed_chunks_model_only) simp
  have absent: "\<forall>i<length (chunks ?r).
          (embeddings ?r ! i = None) =
          (\<exists>e. fst (ec (embed_model ?r) (chunks ?r ! i)
                 (service (snd (embed_chunks ec ?r (take i (chunks ?r))
                    (log_line (LogChunking (length (chunks ?r)))
                       (log_line (LogInitializing path) w)))))) = Inl e)"
  proof (intro allI impI)
    fix i assume "i < length (chunks ?r)"
    then have i: "i < length cs" by simp
    have "embeddings ?r ! i = fst ?run ! i" by simp
    also have "\<dots> = fst (embed ec ?r1 (cs ! i) (snd (embed_chunks ec ?r1 (take i cs) ?w1)))"
      using i by (rule embed_chunks_nth)
    finally have "(embeddings ?r ! i = None) =
        (\<exists>e. fst (ec (embed_model ?r1) (cs ! i)
               (service (snd (embed_chunks ec ?r1 (take i cs) ?w1)))) = Inl e)"
      by (simp only: embed_absent_iff)
    then show "(embeddings ?r ! i = None) =
          (\<exists>e. fst (ec (embed_model ?r) (chunks ?r ! i)
                 (service (snd (embed_chunks ec ?r (take i (chunks ?r))
                    (log_line (LogChunking (length (chunks ?r)))
                       (log_line (LogInitializing path) w)))))) = Inl e)"
      unfolding same chunks by simp
  qed
  show ?thesis
    using new cs len absent
    by (intro exI [of _ ?r] exI [of _ "snd ?run"])
       (simp only: chunks retrieve_keeps_retriever submit_answer_keeps_retriever simp_thms)
qed


lemma str_split_mass_media: "str_split ''mass media'' = [''mass'', ''media'']"
  by code_simp

theorem embeddings_parallel_to_chunks_witness:
  "(\<lambda>p. if p = ''media.txt'' then Some ''mass media'' else None) ''media.txt''
      = Some ''mass media''
   \<and> map_option fst
        (new_retriever (\<lambda>m c s. (Inl (ServiceException ''quota''), s))
           (\<lambda>p. if p = ''media.txt'' then Some ''mass media'' else None)
           ''media.txt'' \<lparr>service = (), logged = []\<rparr>)
      = Some (Inr \<lparr>filepath = ''media.txt'', embed_model = ''models/text-embedding-004'',
                   chunks = [''mass media''], embeddings = [None]\<rparr>)"
  using embeddings_parallel_to_chunks
    [of "\<lambda>p. if p = ''media.txt'' then Some ''mass media'' else None"
        "''media.txt''" "''mass media''"
        "\<lambda>m c s. (Inl (ServiceException ''quota''), s)"
        "\<lparr>service = (), logged = []\<rparr>"]
  by (simp add: new_retriever_def load_and_embed_chunks_def chunk_text_def
      str_split_mass_media chunk_loop.simps py_slice_def slice_bound_def
      embed_def log_line_def)

text \<open>
  Claim C10. \<open>retrieve\<close> only reads the retriever: after the call the chunk list, the
  embedding list, the file path and the identifier of the embedding model are what they
  were before.
\<close>

theorem retrieve_read_only:
  "chunks (fst (snd (retrieve ec r query top_k w))) = chunks r
   \<and> embeddings (fst (snd (retrieve ec r query top_k w))) = embeddings r
   \<and> filepath (fst (snd (retrieve ec r query top_k w))) = filepath r
   \<and> embed_model (fst (snd (retrieve ec r query top_k w))) = embed_model r"
  by (simp add: retrieve_keeps_retriever)

theorem retrieve_read_only_witness:
  "fst (snd (retrieve (\<lambda>m c s. (Inr [1, 0], s))
        \<lparr>filepath = ''media.txt'', embed_model = ''models/text-embedding-004'',
         chunks = [''a'', ''b''], embeddings = [Some [0, 1], None]\<rparr>
        ''q'' 3 \<lparr>service = (), logged = []\<rparr>))
     = \<lparr>filepath = ''media.txt'', embed_model = ''models/text-embedding-004'',
        chunks = [''a'', ''b''], embeddings = [Some [0, 1], None]\<rparr>"
  using retrieve_read_only [of "\<lambda>m c s. (Inr [1, 0], s)"
      "\<lparr>filepath = ''media.txt'', embed_model = ''models/text-embedding-004'',
        chunks = [''a'', ''b''], embeddings = [Some [0, 1], None]\<rparr>"
      "''q''" 3 "\<lparr>service = (), logged = []\<rparr>"]
  by (simp add: retriever.equality)

section \<open>Answer submission\<close>

lemma submit_answer_appends_turn:
  assumes "clicked" "nonblank answer"
    and "retrieve ec r q 3 w = (Inr results, r1, w1)" "results \<noteq> []"
    and "gen ''gemini-2.0-flash-lite'' (build_prompt q results) (service w1)
           = (Inr answer_text, s2)"
    and "embed ec r1 answer (w1\<lparr>service := s2\<rparr>) = (user_emb, w3)"
    and "embed ec r1 answer_text w3 = (model_emb, w4)"
    and "answer_similarity user_emb model_emb = Inr sim"
  shows "conversation (fst (snd (submit_answer ec gen build_prompt r q answer clicked st w)))
    = conversation st @
        [\<lparr>question = q, user_answer = answer, model_answer = answer_text,
          feedback = grade sim, similarity = sim\<rparr>]"
  using assms by (simp add: submit_answer_def)

text \<open>
  Claim C8. When the call of the generation service raises during an answer submission,
  the conversation history is left as it was (no turn is appended), the error is
  written to the response log and an error notice is shown to the user.
\<close>

theorem generation_failure_keeps_history:
  assumes "clicked" "nonblank answer"
    and "retrieve ec r q 3 w = (Inr results, r1, w1)" "results \<noteq> []"
    and "fst (gen ''gemini-2.0-flash-lite'' (build_prompt q results) (service w1)) = Inl e"
  shows "fst (submit_answer ec gen build_prompt r q answer clicked st w) = None
    \<and> conversation (fst (snd (submit_answer ec gen build_prompt r q answer clicked st w)))
        = conversation st
    \<and> shown (fst (snd (submit_answer ec gen build_prompt r q answer clicked st w)))
        = shown st @ [UiErrorNotice e]
    \<and> response_log (fst (snd (submit_answer ec gen build_prompt r q answer clicked st w)))
        = response_log st @ [RespError q e]"
proof -
  obtain s2 where "gen ''gemini-2.0-flash-lite'' (build_prompt q results) (service w1)
      = (Inl e, s2)"
    using assms(5) by (cases "gen ''gemini-2.0-flash-lite'' (build_prompt q results) (service w1)") auto
  with assms(1-4) show ?thesis
    by (simp add: submit_answer_def)
qed

theorem generation_failure_keeps_history_witness:
  "fst (snd (submit_answer (\<lambda>m c s. (Inr [1, 0], s))
        (\<lambda>m p s. (Inl (ServiceException ''quota''), s)) (\<lambda>q rs. q)
        \<lparr>filepath = ''media.txt'', embed_model = ''models/text-embedding-004'',
         chunks = [''a''], embeddings = [Some [1, 0]]\<rparr>
        ''What is media?'' ''news'' True
        \<lparr>conversation = [], shown = [], response_log = []\<rparr>
        \<lparr>service = (), logged = []\<rparr>))
     = \<lparr>conversation = [], shown = [UiErrorNotice (ServiceException ''quota'')],
        response_log = [RespError ''What is media?'' (ServiceException ''quota'')]\<rparr>"
proof -
  let ?ec = "(\<lambda>m c s. (Inr [1, 0], s)) :: unit embed_service"
  let ?gen = "(\<lambda>m p s. (Inl (ServiceException ''quota''), s)) :: unit generation_service"
  let ?bp = "(\<lambda>q rs. q) :: string \<Rightarrow> scored_chunk list \<Rightarrow> string"
  let ?r = "\<lparr>filepath = ''media.txt'', embed_model = ''models/text-embedding-004'',
             chunks = [''a''], embeddings = [Some [1, 0]]\<rparr>"
  let ?w = "\<lparr>service = (), logged = []\<rparr>"
  let ?results = "[\<lparr>chunk_id = 0, filename = ''media.txt'', text_value = ''a'', score = 1\<rparr>]"
  let ?w1 = "\<lparr>service = (), logged = [LogRetrieving 3 ''What is media?'', LogRetrieved 1]\<rparr>"
  have clicked: True by simp
  have answer: "nonblank ''news''"
    by (simp add: nonblank_def is_space_def)
  have found: "retrieve ?ec ?r ''What is media?'' 3 ?w = (Inr ?results, ?r, ?w1)"
    by (simp add: retrieve_def embed_def log_line_def cosine_sim_def linalg_norm_def dot_def
        basename_def sort_reverse_def py_slice_def slice_bound_def)
  have some: "?results \<noteq> []" by simp
  have fails: "fst (?gen ''gemini-2.0-flash-lite'' (?bp ''What is media?'' ?results) (service ?w1))
      = Inl (ServiceException ''quota'')"
    by simp
  note at_input = generation_failure_keeps_history
    [of True "''news''" ?ec ?r "''What is media?''" ?w ?results ?r ?w1 ?gen ?bp
        "ServiceException ''quota''" "\<lparr>conversation = [], shown = [], response_log = []\<rparr>"]
  from at_input [OF clicked answer found some fails]
  show ?thesis by (simp add: session.equality)
qed

end
